theory Spec2Isabelle
  imports Main "HOL-Library.Word" "HOL-Library.Code_Target_Nat"
begin

unbundle bit_operations_syntax

section \<open>The band table of xvalues.c\<close>

text \<open>
  The macros \<open>KB\<close> .. \<open>EB\<close> of the source are unparenthesised products
  (\<open>#define MB 1024ULL * KB\<close>); every use in the program is of the form \<open>n * MB\<close>, so
  each one denotes the product of its factors in \<open>unsigned long long\<close>.
\<close>

type_synonym uint64_t = "64 word"

definition KB :: uint64_t where "KB = 1024"
definition MB :: uint64_t where "MB = 1024 * KB"
definition GB :: uint64_t where "GB = 1024 * MB"
definition TB :: uint64_t where "TB = 1024 * GB"
definition PB :: uint64_t where "PB = 1024 * TB"
definition EB :: uint64_t where "EB = 1024 * PB"

datatype multipliers = BYTE | KILO | MEGA | GIGA | TERA | PETA | EXI

text \<open>The integer value of each enumerator (\<open>BYTE = 0\<close>, then counting up).\<close>

fun enum_val :: "multipliers \<Rightarrow> nat" where
  "enum_val BYTE = 0"
| "enum_val KILO = 1"
| "enum_val MEGA = 2"
| "enum_val GIGA = 3"
| "enum_val TERA = 4"
| "enum_val PETA = 5"
| "enum_val EXI = 6"

record band_info =
  suffix :: char
  width_hex :: nat
  width_dec :: nat
  multi :: uint64_t

fun data :: "multipliers \<Rightarrow> band_info" where
  "data BYTE = \<lparr>suffix = CHR ''b'', width_hex = 4, width_dec = 4, multi = 1\<rparr>"
| "data KILO = \<lparr>suffix = CHR ''K'', width_hex = 8, width_dec = 7, multi = 1 * KB\<rparr>"
| "data MEGA = \<lparr>suffix = CHR ''M'', width_hex = 8, width_dec = 10, multi = 1 * MB\<rparr>"
| "data GIGA = \<lparr>suffix = CHR ''G'', width_hex = 12, width_dec = 13, multi = 1 * GB\<rparr>"
| "data TERA = \<lparr>suffix = CHR ''T'', width_hex = 16, width_dec = 16, multi = 1 * TB\<rparr>"
| "data PETA = \<lparr>suffix = CHR ''P'', width_hex = 16, width_dec = 19, multi = 1 * PB\<rparr>"
| "data EXI = \<lparr>suffix = CHR ''E'', width_hex = 16, width_dec = 20, multi = 1 * EB\<rparr>"

section \<open>The magnitude classifier\<close>

definition get_multiplier :: "uint64_t \<Rightarrow> multipliers" where
  "get_multiplier v =
     (if v < 1 * KB then BYTE
      else if v < 1 * MB then KILO
      else if v < 1 * GB then MEGA
      else if v < 1 * TB then GIGA
      else if v < 1 * PB then TERA
      else if v < 1 * EB then PETA
      else EXI)"

section \<open>C strings and the library functions the program calls\<close>

text \<open>
  A C string is the list of its characters before the terminating NUL, so \<open>strlen\<close>
  is \<open>length\<close> and \<open>*ptr == '\0'\<close> is "the offset \<open>ptr - s\<close> equals the length".
  Elements of \<open>argv\<close> contain no NUL character.
\<close>

text \<open>\<open>isspace\<close> in the C locale: space, and the controls \<open>\t \n \v \f \r\<close>.\<close>

definition isspace :: "char \<Rightarrow> bool" where
  "isspace c = (c = CHR '' '' \<or> c = CHR 0x09 \<or> c = CHR 0x0A \<or> c = CHR 0x0B
                \<or> c = CHR 0x0C \<or> c = CHR 0x0D)"

text \<open>
  The value of a character as a digit: \<open>0-9\<close> are 0..9, letters of either case are
  10..35, and every other character gets 36, which is a digit in no base.
\<close>

definition digit_val :: "char \<Rightarrow> nat" where
  "digit_val c =
     (let n = (of_char c :: nat)
      in if 48 \<le> n \<and> n \<le> 57 then n - 48
         else if 97 \<le> n \<and> n \<le> 122 then n - 87
         else if 65 \<le> n \<and> n \<le> 90 then n - 55
         else 36)"

definition in_base :: "nat \<Rightarrow> char \<Rightarrow> bool" where
  "in_base b c = (digit_val c < b)"

definition ULLONG_MAX :: uint64_t where
  "ULLONG_MAX = 0xFFFFFFFFFFFFFFFF"

text \<open>
  \<open>strtoull(s, &ptr, 0)\<close> of the C library, after ISO C99 to C17 7.22.1.4 (C locale,
  no binary prefix): leading white space is skipped, one sign is accepted, the base is
  16 after \<open>0x\<close>/\<open>0X\<close> followed by a hexadecimal digit, 8 after a leading \<open>0\<close>, and
  10 otherwise; the longest run of digits of that base is converted. A value that does
  not fit is \<open>ULLONG_MAX\<close>; a value after a minus sign is negated in the unsigned type.
  With no digits the result is 0 and \<open>ptr = s\<close>. The result is the value and the offset
  \<open>ptr - s\<close>; the program never reads \<open>errno\<close>.
\<close>

definition sign_len :: "string \<Rightarrow> nat" where
  "sign_len r = (if take 1 r = ''-'' \<or> take 1 r = ''+'' then 1 else 0)"

definition hex_prefix :: "string \<Rightarrow> bool" where
  "hex_prefix r = (2 < length r \<and> r ! 0 = CHR ''0''
                   \<and> (r ! 1 = CHR ''x'' \<or> r ! 1 = CHR ''X'') \<and> in_base 16 (r ! 2))"

definition base_of :: "string \<Rightarrow> nat" where
  "base_of r = (if hex_prefix r then 16 else if take 1 r = ''0'' then 8 else 10)"

definition convert :: "nat \<Rightarrow> string \<Rightarrow> nat" where
  "convert base ds = foldl (\<lambda>a c. a * base + digit_val c) 0 ds"

definition strtoull :: "string \<Rightarrow> uint64_t \<times> nat" where
  "strtoull s =
     (let nws = length (takeWhile isspace s);
          r1 = dropWhile isspace s;
          neg = (take 1 r1 = ''-'');
          nsg = sign_len r1;
          r2 = drop nsg r1;
          base = base_of r2;
          npre = (if hex_prefix r2 then 2 else 0);
          ds = takeWhile (in_base base) (drop npre r2);
          n = convert base ds
      in if ds = [] then (0, 0)
         else (if 2 ^ 64 \<le> n then ULLONG_MAX
               else if neg then - word_of_nat n else word_of_nat n,
               nws + nsg + npre + length ds))"

text \<open>
  The digits \<open>printf\<close> writes for an unsigned integer in base \<open>b\<close>, for the bases
  10 and 16 of the program (\<open>%x\<close> writes lower-case letters), and padding on the left
  up to a minimum field width.
\<close>

definition digit_char :: "nat \<Rightarrow> char" where
  "digit_char d = ''0123456789abcdef'' ! d"

function digits :: "nat \<Rightarrow> nat \<Rightarrow> string" where
  "digits b n = (if b < 2 \<or> n < b then [digit_char n]
                 else digits b (n div b) @ [digit_char (n mod b)])"
  by pat_completeness auto
termination
  by (relation "measure snd") auto

declare digits.simps [simp del]

definition pad_left :: "char \<Rightarrow> nat \<Rightarrow> string \<Rightarrow> string" where
  "pad_left c w s = replicate (w - length s) c @ s"

text \<open>
  The conversion of a 64-bit unsigned integer to \<open>double\<close> (IEEE 754 binary64, round to
  nearest, ties to even): the value keeps its 53 leading bits. \<open>drop_count n\<close> is the
  number of low bits that do not fit.
\<close>

function drop_count :: "nat \<Rightarrow> nat" where
  "drop_count n = (if n < 2 ^ 53 then 0 else Suc (drop_count (n div 2)))"
  by pat_completeness auto
termination
  by (relation "measure id") auto

declare drop_count.simps [simp del]

definition round_half_even :: "nat \<Rightarrow> nat \<Rightarrow> nat" where
  "round_half_even n d =
     (let q = n div d; r = n mod d
      in if d < 2 * r \<or> (2 * r = d \<and> odd q) then q + 1 else q)"

definition to_double :: "nat \<Rightarrow> nat" where
  "to_double n = (let e = drop_count n in round_half_even n (2 ^ e) * 2 ^ e)"

text \<open>
  \<open>printf("%6.1f", x / m)\<close> for a \<open>double\<close> \<open>x\<close> that is an integer and \<open>m\<close> a power
  of two: the quotient is exact in binary64, and the C library (glibc, musl) writes its
  exact value rounded to one decimal place, ties to even, in a field of at least 6.
\<close>

definition printf_6_1f :: "nat \<Rightarrow> nat \<Rightarrow> string" where
  "printf_6_1f x m =
     (let t = round_half_even (10 * x) m
      in pad_left CHR '' '' 6 (digits 10 (t div 10) @ ''.'' @ digits 10 (t mod 10)))"

section \<open>Printing\<close>

text \<open>
  Each printing function returns the text it writes to standard output. The global
  \<open>zero_ch\<close> is written once in \<open>main\<close>, before any printing, and is passed along.
  \<open>print_binary\<close> fills its buffer from index \<open>len - 1\<close> down to 0, so each character
  goes in front of those already written.
\<close>

fun print_binary_loop :: "nat \<Rightarrow> uint64_t \<Rightarrow> char \<Rightarrow> string \<Rightarrow> string" where
  "print_binary_loop 0 v zero_ch str = str"
| "print_binary_loop (Suc len) v zero_ch str =
     print_binary_loop len (drop_bit 1 v) zero_ch
       ((if v AND 1 \<noteq> 0 then CHR ''1'' else zero_ch) # str)"

definition print_binary :: "char \<Rightarrow> uint64_t \<Rightarrow> string" where
  "print_binary zero_ch v =
     (let len = (if v \<le> 0xf then 4
                 else if v \<le> 0xff then 8
                 else if v \<le> 0xffff then 16
                 else if v \<le> 0xffffffff then 32
                 else 64)
      in ''  '' @ print_binary_loop len v zero_ch [])"

definition print_size :: "uint64_t \<Rightarrow> string" where
  "print_size v =
     (let multi = get_multiplier v
      in printf_6_1f (to_double (unat v)) (unat (band_info.multi (data multi)))
         @ [suffix (data multi)])"

text \<open>
  The two integer conversions of the format of \<open>print_number\<close>: \<open>0x%0*PRIx64\<close>
  (zero-padded to the width argument) and \<open>%*PRIu64\<close> (space-padded to it).
\<close>

definition format_hex :: "nat \<Rightarrow> uint64_t \<Rightarrow> string" where
  "format_hex w v = ''0x'' @ pad_left CHR ''0'' w (digits 16 (unat v))"

definition format_decimal :: "nat \<Rightarrow> uint64_t \<Rightarrow> string" where
  "format_decimal w v = pad_left CHR '' '' w (digits 10 (unat v))"

definition print_number :: "char \<Rightarrow> uint64_t \<Rightarrow> multipliers \<Rightarrow> bool \<Rightarrow> string" where
  "print_number zero_ch v width show_bin =
     format_hex (width_hex (data width)) v
     @ '' '' @ format_decimal (width_dec (data width)) v
     @ '' '' @ print_size v
     @ (if show_bin then print_binary zero_ch v else [])
     @ [CHR 0x0A]"

section \<open>Parsing\<close>

datatype error = BinaryTooLong | InvalidBinaryDigit | InvalidSuffix nat

text \<open>What each failure writes to standard error; \<open>InvalidSuffix\<close> carries \<open>ptr - s\<close>.\<close>

fun error_message :: "string \<Rightarrow> error \<Rightarrow> string" where
  "error_message s BinaryTooLong = ''Binary number too big, max 64 bits.'' @ [CHR 0x0A]"
| "error_message s InvalidBinaryDigit =
     ''Binary numbers can only contain 0 or 1.'' @ [CHR 0x0A]"
| "error_message s (InvalidSuffix n) =
     ''Error in value '' @ s @ '':'' @ digits 10 n @ [CHR 0x0A]"

function parse_binary_loop :: "string \<Rightarrow> int \<Rightarrow> uint64_t \<Rightarrow> uint64_t \<Rightarrow> error + uint64_t" where
  "parse_binary_loop s i bmask v =
     (if 1 < i then
        (if s ! nat i = CHR ''1'' then parse_binary_loop s (i - 1) (push_bit 1 bmask) (v OR bmask)
         else if s ! nat i \<noteq> CHR ''0'' then Inl InvalidBinaryDigit
         else parse_binary_loop s (i - 1) (push_bit 1 bmask) v)
      else Inr v)"
  by pat_completeness auto
termination
  by (relation "measure (\<lambda>(s, i, bmask, v). nat i)") auto

declare parse_binary_loop.simps [simp del]

definition parse_binary :: "string \<Rightarrow> error + uint64_t" where
  "parse_binary s =
     (if 66 < length s then Inl BinaryTooLong
      else parse_binary_loop s (int (length s) - 1) 1 0)"

definition get_value :: "string \<Rightarrow> error + uint64_t" where
  "get_value s =
     (if 2 < length s \<and> s ! 0 = CHR ''0'' \<and> (s ! 1 = CHR ''b'' \<or> s ! 1 = CHR ''B'')
      then parse_binary s
      else
        (let (v, ptr) = strtoull s
         in if ptr < length s then
              (let c = s ! ptr
               in if c = CHR ''K'' \<or> c = CHR ''k'' then Inr (v * multi (data KILO))
                  else if c = CHR ''M'' \<or> c = CHR ''m'' then Inr (v * multi (data MEGA))
                  else if c = CHR ''G'' \<or> c = CHR ''g'' then Inr (v * multi (data GIGA))
                  else if c = CHR ''T'' \<or> c = CHR ''t'' then Inr (v * multi (data TERA))
                  else if c = CHR ''P'' \<or> c = CHR ''p'' then Inr (v * multi (data PETA))
                  else if c = CHR ''E'' \<or> c = CHR ''e'' then Inr (v * multi (data EXI))
                  else Inl (InvalidSuffix ptr))
            else Inr v))"

section \<open>The driver\<close>

text \<open>
  \<open>print_string\<close> and the loops of \<open>main\<close> return what they write to standard output
  and to standard error.
\<close>

definition print_string :: "char \<Rightarrow> string \<Rightarrow> multipliers \<Rightarrow> bool \<Rightarrow> string \<times> string" where
  "print_string zero_ch s width show_bin =
     (case get_value s of
        Inl e \<Rightarrow> ([], error_message s e)
      | Inr v \<Rightarrow> (print_number zero_ch v width show_bin, []))"

definition values_arr :: "uint64_t list" where
  "values_arr = [8, 16, 64, 128, 256, 512,
             1 * KB, 4 * KB, 16 * KB, 64 * KB,
             1 * MB, 16 * MB, 64 * MB, 256 * MB, 512 * MB,
             1 * GB, 4 * GB,
             1 * TB,
             1 * PB,
             1 * EB,
             0]"

fun print_all_loop :: "char \<Rightarrow> bool \<Rightarrow> uint64_t list \<Rightarrow> string" where
  "print_all_loop zero_ch show_bin [] = []"
| "print_all_loop zero_ch show_bin (v # vs) =
     (if v \<noteq> 0 then print_number zero_ch v EXI show_bin @ print_all_loop zero_ch show_bin vs
      else [])"

definition print_all :: "char \<Rightarrow> bool \<Rightarrow> string" where
  "print_all zero_ch show_bin = print_all_loop zero_ch show_bin values_arr"

datatype exit_status = EXIT_SUCCESS | EXIT_FAILURE

text \<open>The first loop of \<open>main\<close>: parse every argument, keep the widest band.\<close>

fun width_loop :: "string list \<Rightarrow> multipliers \<Rightarrow> (string \<times> error) + multipliers" where
  "width_loop [] width = Inr width"
| "width_loop (s # ss) width =
     (case get_value s of
        Inl e \<Rightarrow> Inl (s, e)
      | Inr v \<Rightarrow>
          (let tmp_width = get_multiplier v
           in width_loop ss (if enum_val width < enum_val tmp_width then tmp_width else width)))"

text \<open>The second loop of \<open>main\<close>.\<close>

fun print_loop :: "char \<Rightarrow> string list \<Rightarrow> multipliers \<Rightarrow> bool \<Rightarrow> string \<times> string" where
  "print_loop zero_ch [] width show_bin = ([], [])"
| "print_loop zero_ch (s # ss) width show_bin =
     (let (out1, err1) = print_string zero_ch s width show_bin;
          (out2, err2) = print_loop zero_ch ss width show_bin
      in (out1 @ out2, err1 @ err2))"

text \<open>
  \<open>main\<close> takes \<open>argv\<close> (with \<open>argc = length argv\<close>) and returns the exit status, standard
  output and standard error. Its first block sets \<open>show_bin\<close>, \<open>first\<close> and the global
  \<open>zero_ch\<close> (initially a space); \<open>strncmp(argv[1], "-b", 2) == 0\<close> holds when the first
  two characters of \<open>argv[1]\<close> are \<open>-b\<close>.
\<close>

definition main_mode :: "string list \<Rightarrow> bool \<times> nat \<times> char" where
  "main_mode argv =
     (if 1 < length argv then
        (if take 2 (argv ! 1) = ''-b'' then (True, 2, CHR ''.'')
         else if take 2 (argv ! 1) = ''-B'' then (True, 2, CHR ''0'')
         else (False, 1, CHR '' ''))
      else (False, 1, CHR '' ''))"

definition main :: "string list \<Rightarrow> exit_status \<times> string \<times> string" where
  "main argv =
     (let argc = length argv;
          (show_bin, first, zero_ch) = main_mode argv
      in if argc \<le> first then (EXIT_SUCCESS, print_all zero_ch show_bin, [])
         else
           (case width_loop (drop first argv) BYTE of
              Inl (s, e) \<Rightarrow> (EXIT_FAILURE, [], error_message s e)
            | Inr width \<Rightarrow>
                (let (out, err) = print_loop zero_ch (drop first argv) width show_bin
                 in (EXIT_SUCCESS, out, err))))"

section \<open>Notions of the specification\<close>

text \<open>
  A string of binary digits read most-significant-first: the first character has the
  highest weight.
\<close>

definition is_bit :: "char \<Rightarrow> bool" where
  "is_bit c = (c = CHR ''0'' \<or> c = CHR ''1'')"

fun msb_first_value :: "string \<Rightarrow> nat" where
  "msb_first_value [] = 0"
| "msb_first_value (c # cs) =
     (if c = CHR ''1'' then 1 else 0) * 2 ^ length cs + msb_first_value cs"

text \<open>An argument with a \<open>0b\<close>/\<open>0B\<close> prefix and length greater than 2.\<close>

definition binary_arg :: "string \<Rightarrow> bool" where
  "binary_arg s = (2 < length s \<and> take 2 s \<in> {''0b'', ''0B''})"

text \<open>The six magnitude letters, in either case, and the band of each.\<close>

definition suffix_band :: "char \<Rightarrow> multipliers option" where
  "suffix_band c =
     (if c \<in> {CHR ''K'', CHR ''k''} then Some KILO
      else if c \<in> {CHR ''M'', CHR ''m''} then Some MEGA
      else if c \<in> {CHR ''G'', CHR ''g''} then Some GIGA
      else if c \<in> {CHR ''T'', CHR ''t''} then Some TERA
      else if c \<in> {CHR ''P'', CHR ''p''} then Some PETA
      else if c \<in> {CHR ''E'', CHR ''e''} then Some EXI
      else None)"

text \<open>
  A numeric literal is a non-empty string that \<open>strtoull\<close> converts as a whole; it is
  hexadecimal when it has the \<open>x\<close> of the \<open>0x\<close> prefix.
\<close>

definition numeric_literal :: "string \<Rightarrow> bool" where
  "numeric_literal s = (s \<noteq> [] \<and> snd (strtoull s) = length s)"

definition hex_literal :: "string \<Rightarrow> bool" where
  "hex_literal s = (numeric_literal s \<and> (CHR ''x'' \<in> set s \<or> CHR ''X'' \<in> set s))"

text \<open>
  A printed line as the specification describes it: the hexadecimal and decimal columns
  at the field widths of the display band \<open>width\<close>, the human-readable column from the
  value's own band (the value divided by its own band's multiplier, one decimal place,
  and the own band's letter), then the optional binary column.
\<close>

definition value_line :: "char \<Rightarrow> bool \<Rightarrow> multipliers \<Rightarrow> uint64_t \<Rightarrow> string" where
  "value_line zero_ch show_bin width v =
     format_hex (width_hex (data width)) v
     @ '' '' @ format_decimal (width_dec (data width)) v
     @ '' '' @ printf_6_1f (to_double (unat v)) (unat (multi (data (get_multiplier v))))
     @ [suffix (data (get_multiplier v))]
     @ (if show_bin then print_binary zero_ch v else [])
     @ [CHR 0x0A]"

text \<open>The smallest of the bit lengths 4, 8, 16, 32, 64 that can hold a value.\<close>

definition field_len :: "uint64_t \<Rightarrow> nat" where
  "field_len v = hd (filter (\<lambda>n. unat v < 2 ^ n) [4, 8, 16, 32, 64])"

section \<open>Properties of the classifier\<close>

lemma multi_data_simps:
  "multi (data BYTE) = 1" "multi (data KILO) = 2 ^ 10" "multi (data MEGA) = 2 ^ 20"
  "multi (data GIGA) = 2 ^ 30" "multi (data TERA) = 2 ^ 40" "multi (data PETA) = 2 ^ 50"
  "multi (data EXI) = 2 ^ 60"
  by (simp_all add: KB_def MB_def GB_def TB_def PB_def EB_def)

lemmas macro_defs = KB_def MB_def GB_def TB_def PB_def EB_def

lemma get_multiplier_mono:
  "v \<le> w \<Longrightarrow> enum_val (get_multiplier v) \<le> enum_val (get_multiplier w)"
  unfolding get_multiplier_def by (auto simp: macro_defs)

lemma get_multiplier_lower:
  "unat (multi (data (get_multiplier v))) \<le> max 1 (unat v)"
  unfolding get_multiplier_def
  by (auto simp: macro_defs word_less_nat_alt word_le_nat_alt not_less)

lemma get_multiplier_largest:
  "unat (multi (data b)) \<le> max 1 (unat v)
   \<Longrightarrow> multi (data b) \<le> multi (data (get_multiplier v))"
  unfolding get_multiplier_def
  by (cases b) (auto simp: macro_defs word_less_nat_alt word_le_nat_alt not_less)

text \<open>
  Claim C1, as amended. The classifier \<open>get_multiplier\<close> is monotonic: a larger value
  never gets a smaller band. The multiplier of the band it chooses is the largest of the
  seven multipliers that is at most \<open>max v 1\<close>: at most \<open>v\<close> for \<open>v \<ge> 1\<close>, and the Byte
  multiplier 1 for \<open>v = 0\<close>.
\<close>

theorem C1_classifier:
  "(v \<le> w \<longrightarrow> enum_val (get_multiplier v) \<le> enum_val (get_multiplier w))
   \<and> unat (multi (data (get_multiplier v))) \<le> max 1 (unat v)
   \<and> (\<forall>b. unat (multi (data b)) \<le> max 1 (unat v)
          \<longrightarrow> multi (data b) \<le> multi (data (get_multiplier v)))"
  using get_multiplier_mono [of v w] get_multiplier_lower [of v] get_multiplier_largest [of _ v]
  by blast

text \<open>The theorem at \<open>v = 1024\<close>, \<open>w = 1048576\<close> and the band Kilo.\<close>

theorem C1_classifier_witness:
  "(1024 :: uint64_t) \<le> 1048576
   \<and> enum_val (get_multiplier 1024) \<le> enum_val (get_multiplier 1048576)
   \<and> unat (multi (data KILO)) \<le> max 1 (unat (1024 :: uint64_t))
   \<and> multi (data KILO) \<le> multi (data (get_multiplier 1024))"
proof -
  note c = C1_classifier [of 1024 1048576]
  have le: "(1024 :: uint64_t) \<le> 1048576" by simp
  have k: "unat (multi (data KILO)) \<le> max 1 (unat (1024 :: uint64_t))" by (simp add: KB_def)
  from c le have "enum_val (get_multiplier 1024) \<le> enum_val (get_multiplier 1048576)"
    by blast
  moreover from c k have "multi (data KILO) \<le> multi (data (get_multiplier 1024))"
    by blast
  ultimately show ?thesis using le k by blast
qed

text \<open>
  As the claim is written, the bound is \<open>v + 1\<close>. At \<open>v = 1023\<close> the Kilo multiplier
  1024 is at most \<open>v + 1\<close>, and the band chosen is Byte, with multiplier 1.
\<close>

theorem C1_counterexample:
  "unat (multi (data KILO)) \<le> unat (1023 :: uint64_t) + 1
   \<and> get_multiplier 1023 = BYTE
   \<and> multi (data (get_multiplier 1023)) < multi (data KILO)"
  by (simp add: get_multiplier_def KB_def)

section \<open>Binary literals\<close>

lemma msb_first_value_less: "msb_first_value cs < 2 ^ length cs"
  by (induction cs) simp_all

lemma or_bmask:
  assumes "m < 2 ^ k"
  shows "(word_of_nat m :: uint64_t) OR 2 ^ k = word_of_nat (m + 2 ^ k)"
proof -
  have nb: "\<not> bit m k" using assms by (simp add: bit_iff_odd)
  have "(word_of_nat m :: uint64_t) AND 2 ^ k = 0"
    by (rule bit_eqI) (use nb in \<open>auto simp: bit_simps\<close>)
  then have "(word_of_nat m :: uint64_t) + 2 ^ k = word_of_nat m OR 2 ^ k"
    by (rule disjunctive_add_eq_or)
  then show ?thesis by simp
qed

lemma parse_binary_loop_correct:
  assumes "nat i = Suc n" "nat i < length s" "length s \<le> 66"
    and "\<forall>c \<in> set (drop (Suc (nat i)) s). is_bit c"
    and "bmask = 2 ^ (length s - Suc (nat i))"
    and "v = word_of_nat (msb_first_value (drop (Suc (nat i)) s))"
  shows "parse_binary_loop s i bmask v =
      (if \<forall>c \<in> set (drop 2 s). is_bit c
       then Inr (word_of_nat (msb_first_value (drop 2 s)))
       else Inl InvalidBinaryDigit)"
  using assms
proof (induction n arbitrary: i bmask v)
  case 0
  then have i: "i = 1" by simp
  show ?case using 0 by (simp add: parse_binary_loop.simps [of s 1] i numeral_2_eq_2)
next
  case (Suc n)
  let ?j = "nat i"
  let ?done = "drop (Suc ?j) s"
  have i2: "1 < i" and j: "?j = Suc (Suc n)" using Suc.prems by auto
  have dj: "drop ?j s = s ! ?j # ?done"
    using Suc.prems(2) by (simp add: Cons_nth_drop_Suc)
  have len: "length ?done = length s - Suc ?j" by simp
  have k64: "length ?done < 64" using Suc.prems(2,3) j by simp
  have n1: "nat (i - 1) = Suc n" using j by simp
  have d1: "drop (Suc (nat (i - 1))) s = drop ?j s" using j n1 by simp
  have lt1: "nat (i - 1) < length s" using Suc.prems(2) j by simp
  have m1: "push_bit 1 bmask = (2 :: uint64_t) ^ (length s - Suc (nat (i - 1)))"
  proof -
    have "length s - Suc (nat (i - 1)) = Suc (length s - Suc ?j)"
      using Suc.prems(2) j n1 by simp
    then show ?thesis using Suc.prems(5) by (simp add: push_bit_eq_mult)
  qed
  show ?case
  proof (cases "s ! ?j = CHR ''1''")
    case True
    have vor: "v OR bmask = word_of_nat (msb_first_value (drop ?j s))"
      using or_bmask [OF msb_first_value_less [of ?done]] Suc.prems(5,6) True
      by (simp add: dj len add.commute)
    have bits: "\<forall>c \<in> set (drop (Suc (nat (i - 1))) s). is_bit c"
      using Suc.prems(4) True by (simp add: d1 dj is_bit_def)
    have "parse_binary_loop s i bmask v = parse_binary_loop s (i - 1) (push_bit 1 bmask) (v OR bmask)"
      using i2 True by (simp add: parse_binary_loop.simps [of s i])
    also have "\<dots> = (if \<forall>c \<in> set (drop 2 s). is_bit c
       then Inr (word_of_nat (msb_first_value (drop 2 s)))
       else Inl InvalidBinaryDigit)"
      by (rule Suc.IH [OF n1 lt1 Suc.prems(3) bits m1]) (simp add: d1 vor)
    finally show ?thesis .
  next
    case False
    show ?thesis
    proof (cases "s ! ?j = CHR ''0''")
      case True
      have v0: "v = word_of_nat (msb_first_value (drop ?j s))"
        using Suc.prems(6) True by (simp add: dj)
      have bits: "\<forall>c \<in> set (drop (Suc (nat (i - 1))) s). is_bit c"
        using Suc.prems(4) True by (simp add: d1 dj is_bit_def)
      have "parse_binary_loop s i bmask v = parse_binary_loop s (i - 1) (push_bit 1 bmask) v"
        using i2 True by (simp add: parse_binary_loop.simps [of s i])
      also have "\<dots> = (if \<forall>c \<in> set (drop 2 s). is_bit c
         then Inr (word_of_nat (msb_first_value (drop 2 s)))
         else Inl InvalidBinaryDigit)"
        by (rule Suc.IH [OF n1 lt1 Suc.prems(3) bits m1]) (simp add: d1 v0)
      finally show ?thesis .
    next
      case F2: False
      have "s ! ?j \<in> set (drop 2 s)"
        using j Suc.prems(2) by (auto simp: in_set_conv_nth intro!: exI [of _ "?j - 2"])
      then have "\<not> (\<forall>c \<in> set (drop 2 s). is_bit c)"
        using False F2 by (auto simp: is_bit_def)
      then show ?thesis
        using i2 False F2 by (simp add: parse_binary_loop.simps [of s i])
    qed
  qed
qed

lemma parse_binary_correct:
  assumes "2 < length s"
  shows "parse_binary s =
     (if 66 < length s then Inl BinaryTooLong
      else if \<forall>c \<in> set (drop 2 s). is_bit c
       then Inr (word_of_nat (msb_first_value (drop 2 s)))
       else Inl InvalidBinaryDigit)"
proof (cases "66 < length s")
  case True
  then show ?thesis by (simp add: parse_binary_def)
next
  case False
  obtain n where n: "length s - 1 = Suc n" using assms by (cases "length s - 1") auto
  have "parse_binary_loop s (int (length s) - 1) 1 0 =
      (if \<forall>c \<in> set (drop 2 s). is_bit c
       then Inr (word_of_nat (msb_first_value (drop 2 s)))
       else Inl InvalidBinaryDigit)"
  proof (rule parse_binary_loop_correct [where n = n])
    show "nat (int (length s) - 1) = Suc n" using n by simp
    show "nat (int (length s) - 1) < length s" using assms by simp
    show "length s \<le> 66" using False by simp
    have e: "Suc (nat (int (length s) - 1)) = length s" using assms by simp
    show "\<forall>c \<in> set (drop (Suc (nat (int (length s) - 1))) s). is_bit c" by (simp add: e)
    show "(1 :: uint64_t) = 2 ^ (length s - Suc (nat (int (length s) - 1)))" by (simp add: e)
    show "(0 :: uint64_t) = word_of_nat (msb_first_value (drop (Suc (nat (int (length s) - 1))) s))"
      by (simp add: e)
  qed
  then show ?thesis using False by (simp add: parse_binary_def)
qed


lemma get_value_binary_arg:
  assumes "binary_arg s"
  shows "get_value s = parse_binary s"
proof -
  obtain a b r where s: "s = a # b # r"
    using assms by (cases s; cases "tl s") (auto simp: binary_arg_def)
  show ?thesis using assms by (auto simp: s binary_arg_def get_value_def)
qed

text \<open>
  Claim C3, as amended. For an argument with a \<open>0b\<close>/\<open>0B\<close> prefix and length greater
  than 2: parsing fails with \<open>BinaryTooLong\<close> exactly when the length, prefix included,
  exceeds 66; it fails with \<open>InvalidBinaryDigit\<close> exactly when the length is at most 66
  and some character after the prefix is neither 0 nor 1; otherwise it returns the value
  of the characters after the prefix read most-significant-first, which is below \<open>2^64\<close>.
\<close>

theorem C3_binary_literal:
  assumes "binary_arg s"
  shows "(get_value s = Inl BinaryTooLong \<longleftrightarrow> 66 < length s)
       \<and> (get_value s = Inl InvalidBinaryDigit
            \<longleftrightarrow> length s \<le> 66 \<and> (\<exists>c \<in> set (drop 2 s). \<not> is_bit c))
       \<and> (length s \<le> 66 \<and> (\<forall>c \<in> set (drop 2 s). is_bit c)
            \<longrightarrow> get_value s = Inr (word_of_nat (msb_first_value (drop 2 s)))
                \<and> msb_first_value (drop 2 s) < 2 ^ 64)"
proof -
  have len: "2 < length s" using assms by (simp add: binary_arg_def)
  have gv: "get_value s =
     (if 66 < length s then Inl BinaryTooLong
      else if \<forall>c \<in> set (drop 2 s). is_bit c
       then Inr (word_of_nat (msb_first_value (drop 2 s)))
       else Inl InvalidBinaryDigit)"
    using get_value_binary_arg [OF assms] parse_binary_correct [OF len] by simp
  have bound: "msb_first_value (drop 2 s) < 2 ^ 64" if "length s \<le> 66"
  proof -
    have "msb_first_value (drop 2 s) < 2 ^ length (drop 2 s)"
      by (rule msb_first_value_less)
    also have "\<dots> \<le> (2 :: nat) ^ 64"
      using that by (intro power_increasing) simp_all
    finally show ?thesis .
  qed
  show ?thesis using gv bound by auto
qed

text \<open>
  The theorem at \<open>0b1010\<close> (the value is 10) and at \<open>0b102\<close> (an invalid digit).
\<close>

theorem C3_binary_literal_witness:
  "binary_arg ''0b1010'' \<and> get_value ''0b1010'' = Inr 10
   \<and> binary_arg ''0b102'' \<and> get_value ''0b102'' = Inl InvalidBinaryDigit"
  using C3_binary_literal [of "''0b1010''"] C3_binary_literal [of "''0b102''"]
  by (simp add: binary_arg_def is_bit_def)

text \<open>
  As the claim is written, \<open>InvalidBinaryDigit\<close> would be the failure of every binary
  argument with a character other than 0 and 1 after the prefix. For \<open>0b\<close> followed by
  65 characters \<open>2\<close> (67 characters) the length check comes first.
\<close>

theorem C3_counterexample:
  "binary_arg ''0b22222222222222222222222222222222222222222222222222222222222222222''
   \<and> \<not> is_bit (''0b22222222222222222222222222222222222222222222222222222222222222222'' ! 2)
   \<and> get_value ''0b22222222222222222222222222222222222222222222222222222222222222222''
       \<noteq> Inl InvalidBinaryDigit
   \<and> get_value ''0b22222222222222222222222222222222222222222222222222222222222222222''
       = Inl BinaryTooLong"
  by (simp add: binary_arg_def is_bit_def get_value_def parse_binary_def)

section \<open>Numeric literals and magnitude suffixes\<close>

lemma takeWhile_snoc_not: "\<not> P c \<Longrightarrow> takeWhile P (xs @ [c]) = takeWhile P xs"
  by (induction xs) simp_all

lemma dropWhile_snoc_not: "\<not> P c \<Longrightarrow> dropWhile P (xs @ [c]) = dropWhile P xs @ [c]"
  by (induction xs) simp_all

lemma suffix_band_cases:
  assumes "suffix_band c = Some b"
  shows "c \<in> {CHR ''K'', CHR ''k'', CHR ''M'', CHR ''m'', CHR ''G'', CHR ''g'',
              CHR ''T'', CHR ''t'', CHR ''P'', CHR ''p'', CHR ''E'', CHR ''e''}"
  using assms by (auto simp: suffix_band_def split: if_splits)

lemma suffix_not_space: "suffix_band c = Some b \<Longrightarrow> \<not> isspace c"
  by (drule suffix_band_cases) (auto simp: isspace_def)

lemma suffix_digit_val:
  assumes "suffix_band c = Some b"
  shows "if c \<in> {CHR ''E'', CHR ''e''} then digit_val c = 14 else 16 \<le> digit_val c"
  using suffix_band_cases [OF assms] by (auto simp: digit_val_def)

lemma sign_len_le: "sign_len r \<le> length r"
  by (cases r) (auto simp: sign_len_def)

lemma sign_len_snoc: "r \<noteq> [] \<Longrightarrow> sign_len (r @ [c]) = sign_len r"
  by (cases r) (auto simp: sign_len_def)

lemma hex_prefix_snoc: "2 < length r \<Longrightarrow> hex_prefix (r @ [c]) = hex_prefix r"
  by (auto simp: hex_prefix_def nth_append)

lemma hex_prefix_x: "hex_prefix r \<Longrightarrow> CHR ''x'' \<in> set r \<or> CHR ''X'' \<in> set r"
proof -
  assume h: "hex_prefix r"
  then have "1 < length r" by (simp add: hex_prefix_def)
  then have "r ! 1 \<in> set r" by (rule nth_mem)
  moreover have "r ! 1 = CHR ''x'' \<or> r ! 1 = CHR ''X''" using h by (simp add: hex_prefix_def)
  ultimately show ?thesis by metis
qed


text \<open>The parts of a numeric literal, as \<open>strtoull\<close> sees them.\<close>

lemma strtoull_eq:
  assumes "r1 = dropWhile isspace s" "r2 = drop (sign_len r1) r1"
    and "npre = (if hex_prefix r2 then 2 else 0)" "base = base_of r2"
    and "ds = takeWhile (in_base base) (drop npre r2)"
  shows "strtoull s =
     (if ds = [] then (0, 0)
      else (if 2 ^ 64 \<le> convert base ds then ULLONG_MAX
            else if take 1 r1 = ''-'' then - word_of_nat (convert base ds)
            else word_of_nat (convert base ds),
            length (takeWhile isspace s) + sign_len r1 + npre + length ds))"
  unfolding assms strtoull_def Let_def ..

lemma npre_le: "(if hex_prefix r then 2 else 0) \<le> length r"
  by (auto simp: hex_prefix_def)

lemma numeric_literal_parts:
  assumes lit: "numeric_literal s"
    and r1: "r1 = dropWhile isspace s" and r2: "r2 = drop (sign_len r1) r1"
    and npre: "npre = (if hex_prefix r2 then 2 else 0)" and base: "base = base_of r2"
  shows "takeWhile (in_base base) (drop npre r2) = drop npre r2"
    and "drop npre r2 \<noteq> []"
    and "length (takeWhile isspace s) + sign_len r1 + npre + length (drop npre r2) = length s"
proof -
  define ds where "ds = takeWhile (in_base base) (drop npre r2)"
  note st = strtoull_eq [OF r1 r2 npre base ds_def]
  have sn: "snd (strtoull s) = length s" and sne: "s \<noteq> []"
    using lit by (simp_all add: numeric_literal_def)
  have ne: "ds \<noteq> []"
  proof
    assume "ds = []"
    then have "snd (strtoull s) = 0" by (simp only: st simp_thms if_True snd_conv)
    then show False using sn sne by simp
  qed
  then have tot: "length (takeWhile isspace s) + sign_len r1 + npre + length ds = length s"
    using sn by (simp only: st if_False snd_conv)
  have l1: "length s = length (takeWhile isspace s) + length r1"
    unfolding r1 by (metis length_append takeWhile_dropWhile_id)
  have l2: "length r1 = sign_len r1 + length r2"
    unfolding r2 using sign_len_le [of r1] by simp
  have l3: "length r2 = npre + length (drop npre r2)"
    using npre_le [of r2] by (simp add: npre)
  have "length ds = length (drop npre r2)"
    using tot l1 l2 l3 by linarith
  then have a: "ds = drop npre r2"
    unfolding ds_def by (metis takeWhile_eq_take take_all order_refl)
  show "takeWhile (in_base base) (drop npre r2) = drop npre r2"
    using a by (simp add: ds_def)
  show "drop npre r2 \<noteq> []" using ne a by simp
  show "length (takeWhile isspace s) + sign_len r1 + npre + length (drop npre r2) = length s"
    using tot a by simp
qed

lemma strtoull_literal_suffix:
  assumes lit: "numeric_literal s"
    and sb: "suffix_band c = Some b"
    and eh: "c \<in> {CHR ''E'', CHR ''e''} \<longrightarrow> \<not> hex_literal s"
  shows "strtoull (s @ [c]) = (fst (strtoull s), length s)"
proof -
  define r1 where "r1 = dropWhile isspace s"
  define r2 where "r2 = drop (sign_len r1) r1"
  define npre where "npre = (if hex_prefix r2 then 2 else 0 :: nat)"
  define base where "base = base_of r2"
  define ds where "ds = takeWhile (in_base base) (drop npre r2)"
  note parts = numeric_literal_parts [OF lit r1_def r2_def npre_def base_def]
  have all: "ds = drop npre r2" using parts(1) by (simp add: ds_def)
  have ne: "ds \<noteq> []" using parts(2) all by simp
  have tot: "length (takeWhile isspace s) + sign_len r1 + npre + length ds = length s"
    using parts(3) all by simp
  have r2ne: "r2 \<noteq> []" using parts(2) by auto
  have r1ne: "r1 \<noteq> []" using r2ne by (auto simp: r2_def)
  have nsp: "\<not> isspace c" by (rule suffix_not_space [OF sb])
  have tw: "takeWhile isspace (s @ [c]) = takeWhile isspace s"
    using nsp by (simp add: takeWhile_snoc_not)
  have r1': "r1 @ [c] = dropWhile isspace (s @ [c])"
    using nsp by (simp add: dropWhile_snoc_not r1_def)
  have sg': "sign_len (r1 @ [c]) = sign_len r1"
    by (rule sign_len_snoc [OF r1ne])
  have r2': "r2 @ [c] = drop (sign_len (r1 @ [c])) (r1 @ [c])"
    using sign_len_le [of r1] by (simp add: r2_def sg')
  have set_r2: "set r2 \<subseteq> set s"
  proof -
    have "set r2 \<subseteq> set r1" unfolding r2_def by (rule set_drop_subset)
    also have "set r1 \<subseteq> set s" unfolding r1_def by (auto dest: set_dropWhileD)
    finally show ?thesis .
  qed
  have b16: "base \<noteq> 16" if "c \<in> {CHR ''E'', CHR ''e''}"
  proof
    assume "base = 16"
    then have "hex_prefix r2" by (auto simp: base_def base_of_def split: if_splits)
    then have "CHR ''x'' \<in> set s \<or> CHR ''X'' \<in> set s"
      using hex_prefix_x [of r2] set_r2 by auto
    then show False using eh that lit by (simp add: hex_literal_def)
  qed
  have base_cases: "base = 8 \<or> base = 10 \<or> base = 16"
    by (simp add: base_def base_of_def)
  have nb: "\<not> in_base base c"
    using suffix_digit_val [OF sb] base_cases b16
    by (auto simp: in_base_def split: if_splits)
  have hp': "hex_prefix (r2 @ [c]) = hex_prefix r2"
  proof (cases "2 < length r2")
    case True
    then show ?thesis by (rule hex_prefix_snoc)
  next
    case False
    then have nh: "\<not> hex_prefix r2" by (simp add: hex_prefix_def)
    have "\<not> hex_prefix (r2 @ [c])"
    proof
      assume h: "hex_prefix (r2 @ [c])"
      then have len2: "length r2 = 2" using False by (simp add: hex_prefix_def)
      then obtain x y where xy: "r2 = [x, y]"
        by (cases r2; cases "tl r2") auto
      from h xy have x0: "x = CHR ''0''" and yx: "y = CHR ''x'' \<or> y = CHR ''X''"
        by (auto simp: hex_prefix_def)
      have n0: "npre = 0" using nh by (simp add: npre_def)
      have b8: "base = 8" using nh x0 xy by (simp add: base_def base_of_def)
      have "\<not> in_base 8 y" using yx by (auto simp: in_base_def digit_val_def)
      then have "takeWhile (in_base base) (drop npre r2) \<noteq> drop npre r2"
        by (simp add: n0 b8 xy)
      then show False using parts(1) by simp
    qed
    then show ?thesis using nh by simp
  qed
  have t1: "take 1 (r2 @ [c]) = take 1 r2" using r2ne by (cases r2) auto
  have t1': "take 1 (r1 @ [c]) = take 1 r1" using r1ne by (cases r1) auto
  have base': "base = base_of (r2 @ [c])"
    by (simp only: base_of_def hp' t1 base_def)
  have npre': "npre = (if hex_prefix (r2 @ [c]) then 2 else 0)"
    by (simp add: hp' npre_def)
  have ds': "ds = takeWhile (in_base base) (drop npre (r2 @ [c]))"
    using npre_le [of r2] nb all parts(1) by (simp add: npre_def [symmetric] takeWhile_snoc_not)
  have s1: "strtoull s =
      (if 2 ^ 64 \<le> convert base ds then ULLONG_MAX
            else if take 1 r1 = ''-'' then - word_of_nat (convert base ds)
            else word_of_nat (convert base ds), length s)"
    using ne tot by (simp only: strtoull_eq [OF r1_def r2_def npre_def base_def ds_def] if_False)
  have s2: "strtoull (s @ [c]) =
      (if 2 ^ 64 \<le> convert base ds then ULLONG_MAX
            else if take 1 r1 = ''-'' then - word_of_nat (convert base ds)
            else word_of_nat (convert base ds), length s)"
    using ne tot by (simp only: strtoull_eq [OF r1' r2' npre' base' ds'] if_False tw sg' t1')
  show ?thesis by (simp only: s1 s2 fst_conv)
qed


lemma binary_arg_iff:
  "binary_arg s \<longleftrightarrow> 2 < length s \<and> s ! 0 = CHR ''0'' \<and> (s ! 1 = CHR ''b'' \<or> s ! 1 = CHR ''B'')"
proof (cases s)
  case Nil
  then show ?thesis by (simp add: binary_arg_def)
next
  case (Cons a t)
  then show ?thesis by (cases t) (auto simp: binary_arg_def)
qed

lemma get_value_nonbinary:
  assumes "\<not> binary_arg s" "strtoull s = (v, p)"
  shows "get_value s =
     (if p < length s then
        (case suffix_band (s ! p) of
           Some b \<Rightarrow> Inr (v * multi (data b))
         | None \<Rightarrow> Inl (InvalidSuffix p))
      else Inr v)"
proof -
  have c: "(2 < length s \<and> s ! 0 = CHR ''0'' \<and> (s ! 1 = CHR ''b'' \<or> s ! 1 = CHR ''B'')) = False"
    using assms(1) by (simp only: binary_arg_iff simp_thms)
  have "get_value s =
        (let (v, ptr) = strtoull s
         in if ptr < length s then
              (let c = s ! ptr
               in if c = CHR ''K'' \<or> c = CHR ''k'' then Inr (v * multi (data KILO))
                  else if c = CHR ''M'' \<or> c = CHR ''m'' then Inr (v * multi (data MEGA))
                  else if c = CHR ''G'' \<or> c = CHR ''g'' then Inr (v * multi (data GIGA))
                  else if c = CHR ''T'' \<or> c = CHR ''t'' then Inr (v * multi (data TERA))
                  else if c = CHR ''P'' \<or> c = CHR ''p'' then Inr (v * multi (data PETA))
                  else if c = CHR ''E'' \<or> c = CHR ''e'' then Inr (v * multi (data EXI))
                  else Inl (InvalidSuffix ptr))
            else Inr v)"
    by (simp only: get_value_def c if_False)
  then show ?thesis
    by (simp add: assms(2) Let_def suffix_band_def)
qed

lemma multi_data_power: "multi (data b) = 1024 ^ enum_val b"
  by (cases b) (simp_all add: macro_defs)

lemma numeric_literal_not_binary:
  assumes lit: "numeric_literal s" and sb: "suffix_band c = Some b"
  shows "\<not> binary_arg (s @ [c])"
proof
  assume "binary_arg (s @ [c])"
  then have len: "2 < length (s @ [c])" and s0: "(s @ [c]) ! 0 = CHR ''0''"
    and s1: "(s @ [c]) ! 1 = CHR ''b'' \<or> (s @ [c]) ! 1 = CHR ''B''"
    by (simp_all add: binary_arg_iff)
  from len obtain x y t where s: "s = x # y # t"
    by (cases s; cases "tl s") auto
  have x: "x = CHR ''0''" and y: "y = CHR ''b'' \<or> y = CHR ''B''"
    using s0 s1 by (simp_all add: s)
  have r1: "s = dropWhile isspace s" by (simp add: s x isspace_def)
  have r2: "s = drop (sign_len s) s" by (simp add: s x sign_len_def)
  have nh: "\<not> hex_prefix s" using y by (auto simp: s hex_prefix_def)
  have npre: "0 = (if hex_prefix s then 2 else 0 :: nat)" using nh by simp
  have base: "8 = base_of s" using nh by (simp add: base_of_def s x)
  have "takeWhile (in_base 8) (drop 0 s) = drop 0 s"
    by (rule numeric_literal_parts(1) [OF lit r1 r2 npre base])
  moreover have "\<not> in_base 8 y" using y by (auto simp: in_base_def digit_val_def)
  ultimately show False by (simp add: s x in_base_def digit_val_def split: if_splits)
qed

text \<open>
  Claim C2, as amended. A numeric literal (a non-empty string that \<open>strtoull\<close> converts
  as a whole) followed by exactly one of the letters K/k, M/m, G/g, T/t, P/p, E/e parses
  to the integer of the literal multiplied, in unsigned 64-bit arithmetic, by
  \<open>1024^1\<close> .. \<open>1024^6\<close> respectively, the same for either case of the letter; except
  that E/e after a hexadecimal literal is not covered.
\<close>

theorem C2_suffix_multiplication:
  assumes "numeric_literal s" "suffix_band c = Some b"
    and "c \<in> {CHR ''E'', CHR ''e''} \<longrightarrow> \<not> hex_literal s"
  shows "get_value (s @ [c]) = Inr (fst (strtoull s) * 1024 ^ enum_val b)"
proof -
  have st: "strtoull (s @ [c]) = (fst (strtoull s), length s)"
    using assms by (rule strtoull_literal_suffix)
  have nb: "\<not> binary_arg (s @ [c])"
    using assms(1,2) by (rule numeric_literal_not_binary)
  show ?thesis
    using get_value_nonbinary [OF nb st] assms(2) by (simp add: multi_data_power)
qed

text \<open>
  The theorem at the literal \<open>2\<close> with \<open>G\<close>, with \<open>g\<close> and with \<open>E\<close>.
\<close>

theorem C2_suffix_multiplication_witness:
  "numeric_literal ''2'' \<and> \<not> hex_literal ''2''
   \<and> suffix_band CHR ''G'' = Some GIGA \<and> suffix_band CHR ''g'' = Some GIGA
   \<and> suffix_band CHR ''E'' = Some EXI
   \<and> get_value ''2G'' = Inr (2 * 1024 ^ 3) \<and> get_value ''2g'' = Inr (2 * 1024 ^ 3)
   \<and> get_value ''2E'' = Inr (2 * 1024 ^ 6)"
proof -
  have l: "numeric_literal ''2''" by code_simp
  have nh: "\<not> hex_literal ''2''" by (simp add: hex_literal_def)
  have G: "suffix_band CHR ''G'' = Some GIGA" and g: "suffix_band CHR ''g'' = Some GIGA"
    and E: "suffix_band CHR ''E'' = Some EXI"
    by (simp_all add: suffix_band_def)
  have v: "fst (strtoull ''2'') = 2" by code_simp
  have "get_value (''2'' @ [CHR ''G'']) = Inr (fst (strtoull ''2'') * 1024 ^ enum_val GIGA)"
    by (rule C2_suffix_multiplication [OF l G]) simp
  moreover
  have "get_value (''2'' @ [CHR ''g'']) = Inr (fst (strtoull ''2'') * 1024 ^ enum_val GIGA)"
    by (rule C2_suffix_multiplication [OF l g]) simp
  moreover
  have "get_value (''2'' @ [CHR ''E'']) = Inr (fst (strtoull ''2'') * 1024 ^ enum_val EXI)"
    using nh by (intro C2_suffix_multiplication [OF l E]) simp
  ultimately show ?thesis using l nh G g E v by simp
qed

text \<open>
  As the claim is written, the literal \<open>0x1\<close> followed by \<open>E\<close> would give
  \<open>1 * 1024^6\<close>. The \<open>E\<close> is a hexadecimal digit: the result is 30.
\<close>

theorem C2_counterexample:
  "numeric_literal ''0x1'' \<and> fst (strtoull ''0x1'') = 1 \<and> suffix_band CHR ''E'' = Some EXI
   \<and> get_value (''0x1'' @ [CHR ''E'']) = Inr 30
   \<and> get_value (''0x1'' @ [CHR ''E'']) \<noteq> Inr (1 * 1024 ^ 6)"
  by code_simp

text \<open>
  Claim C4, as amended. For an argument that is not a binary literal, let \<open>p\<close> be the
  offset where \<open>strtoull\<close> stops, the end of the numeric part. The parse fails exactly
  when a character is left at \<open>p\<close> and it is not one of the six magnitude letters, and
  then the failure is \<open>InvalidSuffix\<close> with position \<open>p\<close>. So an input with more than
  one character after the numeric part fails only when the first of them is not a
  magnitude letter.
\<close>

theorem C4_suffix_errors:
  assumes "\<not> binary_arg s" "strtoull s = (v, p)"
  shows "((\<exists>e. get_value s = Inl e) \<longleftrightarrow> p < length s \<and> suffix_band (s ! p) = None)
       \<and> (\<forall>e. get_value s = Inl e \<longrightarrow> e = InvalidSuffix p)"
  using get_value_nonbinary [OF assms] by (auto split: option.splits)

text \<open>
  The theorem at \<open>5X\<close>: the failure is at position 1.
\<close>

theorem C4_suffix_errors_witness:
  "\<not> binary_arg ''5X'' \<and> strtoull ''5X'' = (5, 1) \<and> get_value ''5X'' = Inl (InvalidSuffix 1)"
proof -
  have nb: "\<not> binary_arg ''5X''" by (simp add: binary_arg_def)
  have st: "strtoull ''5X'' = (5, 1)" by code_simp
  have sb: "suffix_band (''5X'' ! 1) = None" by (simp add: suffix_band_def)
  from C4_suffix_errors [OF nb st] sb show ?thesis using nb st by auto
qed

text \<open>
  As the claim is written, \<open>5KB\<close>, with two characters after the numeric part, would
  be a parse error. It parses to \<open>5 * 1024\<close>.
\<close>

theorem C4_counterexample:
  "\<not> binary_arg ''5KB'' \<and> strtoull ''5KB'' = (5, 1) \<and> length ''5KB'' = 1 + 2
   \<and> get_value ''5KB'' = Inr 5120"
  by code_simp

text \<open>
  Claim C10. When the numeric part is followed by a magnitude letter, the parse succeeds
  and its result is the product of the parsed integer and the letter's power of 1024
  modulo \<open>2^64\<close>: there is no overflow check.
\<close>

theorem C10_wraps:
  assumes "\<not> binary_arg s" "strtoull s = (v, p)" "p < length s" "suffix_band (s ! p) = Some b"
  shows "\<exists>w. get_value s = Inr w \<and> unat w = (unat v * 1024 ^ enum_val b) mod 2 ^ 64"
proof -
  have "get_value s = Inr (v * 1024 ^ enum_val b)"
    using get_value_nonbinary [OF assms(1,2)] assms(3,4) by (simp add: multi_data_power)
  moreover have "unat (v * 1024 ^ enum_val b) = (unat v * 1024 ^ enum_val b) mod 2 ^ 64"
  proof -
    have "unat v < 2 ^ 64" using unsigned_less [of v, where 'a = nat] by simp
    then show ?thesis by (cases b) (simp_all add: unat_word_ariths)
  qed
  ultimately show ?thesis by blast
qed

text \<open>
  The theorem at \<open>16E\<close>: \<open>16 * 1024^6 = 2^64\<close>, and the result is 0.
\<close>

theorem C10_wraps_witness:
  "\<not> binary_arg ''16E'' \<and> strtoull ''16E'' = (16, 2) \<and> suffix_band (''16E'' ! 2) = Some EXI
   \<and> get_value ''16E'' = Inr 0"
proof -
  have nb: "\<not> binary_arg ''16E''" by (simp add: binary_arg_def)
  have st: "strtoull ''16E'' = (16, 2)" by code_simp
  have sb: "suffix_band (''16E'' ! 2) = Some EXI" by (simp add: suffix_band_def)
  obtain w where w: "get_value ''16E'' = Inr w" and u: "unat w = (unat (16 :: uint64_t) * 1024 ^ enum_val EXI) mod 2 ^ 64"
    using C10_wraps [OF nb st _ sb] by auto
  from u have "unat w = 0" by simp
  then have "w = 0" by (simp add: unat_eq_0)
  then show ?thesis using nb st sb w by simp
qed

section \<open>Parsing what the program prints\<close>

lemma digit_val_digit_char: "d < 16 \<Longrightarrow> digit_val (digit_char d) = d"
proof -
  assume "d < 16"
  then have "d \<in> {0, 1, 2, 3, 4, 5, 6, 7, 8, 9, 10, 11, 12, 13, 14, 15}" by simp arith
  then show ?thesis by (auto simp: digit_char_def digit_val_def)
qed

lemma digit_char_0: "d < 16 \<Longrightarrow> digit_char d = CHR ''0'' \<longleftrightarrow> d = 0"
proof -
  assume "d < 16"
  then have "d \<in> {0, 1, 2, 3, 4, 5, 6, 7, 8, 9, 10, 11, 12, 13, 14, 15}" by simp arith
  then show ?thesis by (auto simp: digit_char_def)
qed

lemma digits_nonempty: "digits b n \<noteq> []"
  by (subst digits.simps) simp

lemma digits_in_base:
  assumes "2 \<le> b" "b \<le> 16"
  shows "\<forall>c \<in> set (digits b n). in_base b c"
  using assms
proof (induction b n rule: digits.induct)
  case (1 b n)
  show ?case
  proof (cases "n < b")
    case True
    then have "digits b n = [digit_char n]" by (subst digits.simps) simp
    then show ?thesis using True 1(3) by (simp add: in_base_def digit_val_digit_char)
  next
    case False
    then have d: "digits b n = digits b (n div b) @ [digit_char (n mod b)]"
      using 1(2) by (subst digits.simps) simp
    have "n mod b < b" using 1(2) by simp
    then have "in_base b (digit_char (n mod b))"
      using 1(3) by (simp add: in_base_def digit_val_digit_char)
    moreover have "\<forall>c \<in> set (digits b (n div b)). in_base b c"
      using 1 False by simp
    ultimately show ?thesis by (simp add: d)
  qed
qed

lemma convert_snoc: "convert b (ds @ [c]) = convert b ds * b + digit_val c"
  by (simp add: convert_def)

lemma convert_digits:
  assumes "2 \<le> b" "b \<le> 16"
  shows "convert b (digits b n) = n"
  using assms
proof (induction b n rule: digits.induct)
  case (1 b n)
  show ?case
  proof (cases "n < b")
    case True
    then have "digits b n = [digit_char n]" by (subst digits.simps) simp
    then show ?thesis using True 1(3) by (simp add: convert_def digit_val_digit_char)
  next
    case False
    then have d: "digits b n = digits b (n div b) @ [digit_char (n mod b)]"
      using 1(2) by (subst digits.simps) simp
    have m: "n mod b < 16" using 1(2,3) by (meson less_le_trans mod_less_divisor zero_less_numeral less_le_trans [of 0 2 b])
    have "convert b (digits b (n div b)) = n div b" using 1 False by simp
    then show ?thesis by (simp add: d convert_snoc digit_val_digit_char [OF m])
  qed
qed

lemma convert_zeros: "convert b (replicate k CHR ''0'' @ ds) = convert b ds"
proof -
  have "foldl (\<lambda>a c. a * b + digit_val c) 0 (replicate k CHR ''0'') = 0"
    by (induction k) (simp_all add: digit_val_def)
  then show ?thesis by (simp add: convert_def)
qed

lemma hd_digits:
  assumes "2 \<le> b" "b \<le> 16" "0 < n"
  shows "hd (digits b n) \<noteq> CHR ''0''"
  using assms
proof (induction b n rule: digits.induct)
  case (1 b n)
  show ?case
  proof (cases "n < b")
    case True
    then have "digits b n = [digit_char n]" by (subst digits.simps) simp
    then show ?thesis using True 1(3,4) by (simp add: digit_char_0)
  next
    case False
    then have d: "digits b n = digits b (n div b) @ [digit_char (n mod b)]"
      using 1(2) by (subst digits.simps) simp
    have "0 < n div b" using False 1(2) by (simp add: div_greater_zero_iff)
    then have "hd (digits b (n div b)) \<noteq> CHR ''0''" using 1 False by simp
    then show ?thesis by (simp add: d digits_nonempty)
  qed
qed

lemma digits_0: "2 \<le> b \<Longrightarrow> digits b 0 = ''0''"
  by (subst digits.simps) (simp add: digit_char_def)


lemma in_base_10_chars:
  assumes "in_base 10 c"
  shows "\<not> isspace c" "c \<noteq> CHR ''-''" "c \<noteq> CHR ''+''" "c \<noteq> CHR ''x''" "c \<noteq> CHR ''X''"
    "c \<noteq> CHR ''b''" "c \<noteq> CHR ''B''"
  using assms by (auto simp: in_base_def digit_val_def isspace_def)

lemma takeWhile_all: "\<forall>c \<in> set xs. P c \<Longrightarrow> takeWhile P xs = xs"
  by (induction xs) simp_all

lemma strtoull_format_hex:
  "strtoull (format_hex w v) = (v, length (format_hex w v))"
proof -
  define body where "body = pad_left CHR ''0'' w (digits 16 (unat v))"
  define s where "s = CHR ''0'' # CHR ''x'' # body"
  have fs: "format_hex w v = s" by (simp add: format_hex_def s_def body_def)
  have body: "body = replicate (w - length (digits 16 (unat v))) CHR ''0'' @ digits 16 (unat v)"
    by (simp add: body_def pad_left_def)
  have bne: "body \<noteq> []" by (simp add: body digits_nonempty)
  have ball: "\<forall>c \<in> set body. in_base 16 c"
    using digits_in_base [of 16 "unat v"] by (auto simp: body in_base_def digit_val_def)
  have hp: "hex_prefix s"
    using bne ball by (cases body) (auto simp: hex_prefix_def s_def)
  have r1: "s = dropWhile isspace s" by (simp add: s_def isspace_def)
  have r2: "s = drop (sign_len s) s" by (simp add: s_def sign_len_def)
  have npre: "2 = (if hex_prefix s then 2 else 0 :: nat)" using hp by simp
  have base: "16 = base_of s" using hp by (simp add: base_of_def)
  have ds: "body = takeWhile (in_base 16) (drop 2 s)"
    using takeWhile_all [OF ball, symmetric] by (simp add: s_def)
  have cv: "convert 16 body = unat v"
    by (simp add: body convert_zeros convert_digits)
  have lt: "\<not> 2 ^ 64 \<le> unat v"
    using unsigned_less [of v, where 'a = nat] by simp
  have tw: "takeWhile isspace s = []" by (simp add: s_def isspace_def)
  have sg: "sign_len s = 0" by (simp add: s_def sign_len_def)
  have t1: "take 1 s \<noteq> ''-''" by (simp add: s_def)
  have "strtoull s = (word_of_nat (unat v), 2 + length body)"
    using bne lt t1 by (simp add: strtoull_eq [OF r1 r2 npre base ds] cv tw sg)
  then show ?thesis by (simp add: fs s_def)
qed

lemma get_value_format_hex: "get_value (format_hex w v) = Inr v"
proof -
  have "format_hex w v ! 1 = CHR ''x''" by (simp add: format_hex_def)
  then have nb: "\<not> binary_arg (format_hex w v)" by (simp add: binary_arg_iff)
  show ?thesis
    using get_value_nonbinary [OF nb strtoull_format_hex] by simp
qed

lemma strtoull_format_decimal:
  "strtoull (format_decimal w v) = (v, length (format_decimal w v))"
proof -
  define d where "d = digits 10 (unat v)"
  define k where "k = w - length d"
  define s where "s = replicate k CHR '' '' @ d"
  have fs: "format_decimal w v = s" by (simp add: format_decimal_def pad_left_def s_def k_def d_def)
  have dne: "d \<noteq> []" by (simp add: d_def digits_nonempty)
  have dall: "\<forall>c \<in> set d. in_base 10 c"
    unfolding d_def by (rule digits_in_base) simp_all
  obtain x t where d: "d = x # t" using dne by (cases d) auto
  have x: "in_base 10 x" using dall by (simp add: d)
  have r1: "d = dropWhile isspace s"
    using in_base_10_chars(1) [OF x] by (simp add: s_def d dropWhile_append3 isspace_def)
  have tw: "takeWhile isspace s = replicate k CHR '' ''"
    using in_base_10_chars(1) [OF x] by (simp add: s_def d takeWhile_tail isspace_def)
  have sg: "sign_len d = 0"
    using in_base_10_chars(2,3) [OF x] by (simp add: sign_len_def d)
  have r2: "d = drop (sign_len d) d" by (simp add: sg)
  have nh: "\<not> hex_prefix d"
  proof
    assume h: "hex_prefix d"
    then have "1 < length d" by (simp add: hex_prefix_def)
    then have "in_base 10 (d ! 1)" using dall by (meson nth_mem)
    then show False using h in_base_10_chars(4,5) [of "d ! 1"] by (auto simp: hex_prefix_def)
  qed
  have npre: "0 = (if hex_prefix d then 2 else 0 :: nat)" using nh by simp
  have t1: "take 1 d \<noteq> ''-''" using in_base_10_chars(2) [OF x] by (simp add: d)
  have lt: "\<not> 2 ^ 64 \<le> unat v"
    using unsigned_less [of v, where 'a = nat] by simp
  have "strtoull s = (word_of_nat (unat v), k + length d)"
  proof (cases "unat v = 0")
    case True
    then have d0: "d = ''0''" by (simp add: d_def digits_0)
    have base: "8 = base_of d" using nh by (simp add: base_of_def d0)
    have ds: "d = takeWhile (in_base 8) (drop 0 d)" by (simp add: d0 in_base_def digit_val_def)
    have cv: "convert 8 d = 0" by (simp add: d0 convert_def digit_val_def)
    show ?thesis
      using dne t1 by (simp add: strtoull_eq [OF r1 r2 npre base ds] cv tw sg True)
  next
    case False
    then have "hd d \<noteq> CHR ''0''" unfolding d_def by (intro hd_digits) simp_all
    then have "take 1 d \<noteq> ''0''" by (simp add: d)
    then have base: "10 = base_of d" using nh by (simp add: base_of_def)
    have ds: "d = takeWhile (in_base 10) (drop 0 d)" using takeWhile_all [OF dall, symmetric] by simp
    have cv: "convert 10 d = unat v" unfolding d_def by (rule convert_digits) simp_all
    show ?thesis
      using dne t1 lt by (simp add: strtoull_eq [OF r1 r2 npre base ds] cv tw sg)
  qed
  then show ?thesis by (simp add: fs s_def)
qed

lemma format_decimal_not_binary: "\<not> binary_arg (format_decimal w v)"
proof
  let ?s = "format_decimal w v"
  assume "binary_arg ?s"
  then have a: "2 < length ?s \<and> ?s ! 0 = CHR ''0'' \<and> (?s ! 1 = CHR ''b'' \<or> ?s ! 1 = CHR ''B'')"
    by (simp add: binary_arg_iff)
  have all: "\<forall>c \<in> set ?s. c = CHR '' '' \<or> in_base 10 c"
    using digits_in_base [of 10 "unat v"] by (auto simp: format_decimal_def pad_left_def)
  have "?s ! 1 \<in> set ?s" using a by (intro nth_mem) simp
  then have "?s ! 1 = CHR '' '' \<or> in_base 10 (?s ! 1)" using all by blast
  then show False using a in_base_10_chars(6,7) [of "?s ! 1"] by auto
qed

lemma get_value_format_decimal: "get_value (format_decimal w v) = Inr v"
  using get_value_nonbinary [OF format_decimal_not_binary strtoull_format_decimal] by simp

text \<open>
  Claim C5. Parsing the hexadecimal rendering of a value (\<open>0x\<close> and the zero-padded
  digits) and parsing its decimal rendering (space-padded) both give the value back, at
  the field widths of every band.
\<close>

theorem C5_round_trip:
  "get_value (format_hex (width_hex (data width)) v) = Inr v
   \<and> get_value (format_decimal (width_dec (data width)) v) = Inr v"
  by (simp add: get_value_format_hex get_value_format_decimal)

section \<open>The driver\<close>

lemma width_loop_ok:
  assumes "map get_value ss = map Inr vs"
  shows "\<exists>W. width_loop ss w = Inr W
           \<and> (W = w \<or> W \<in> get_multiplier ` set vs)
           \<and> enum_val w \<le> enum_val W
           \<and> (\<forall>v \<in> set vs. enum_val (get_multiplier v) \<le> enum_val W)"
  using assms
proof (induction ss arbitrary: vs w)
  case Nil
  then show ?case by simp
next
  case (Cons s ss)
  then obtain v vs' where vs: "vs = v # vs'" and gv: "get_value s = Inr v"
    and rest: "map get_value ss = map Inr vs'"
    by (cases vs) auto
  let ?w = "if enum_val w < enum_val (get_multiplier v) then get_multiplier v else w"
  obtain W where W: "width_loop ss ?w = Inr W"
    "W = ?w \<or> W \<in> get_multiplier ` set vs'" "enum_val ?w \<le> enum_val W"
    "\<forall>v \<in> set vs'. enum_val (get_multiplier v) \<le> enum_val W"
    using Cons.IH [OF rest, of ?w] by blast
  have "width_loop (s # ss) w = Inr W" using gv W(1) by (simp add: Let_def)
  moreover have "W = w \<or> W \<in> get_multiplier ` set vs"
    using W(2) by (auto simp: vs split: if_splits)
  moreover have "enum_val w \<le> enum_val W" using W(3) by (auto split: if_splits)
  moreover have "\<forall>v \<in> set vs. enum_val (get_multiplier v) \<le> enum_val W"
    using W(3,4) by (auto simp: vs split: if_splits)
  ultimately show ?case by blast
qed

lemma enum_val_inj: "enum_val a = enum_val b \<Longrightarrow> a = b"
  by (cases a; cases b) simp_all

lemma width_loop_max:
  assumes "map get_value ss = map Inr vs" "vs \<noteq> []"
  shows "\<exists>W. width_loop ss BYTE = Inr W \<and> W \<in> get_multiplier ` set vs
           \<and> (\<forall>v \<in> set vs. enum_val (get_multiplier v) \<le> enum_val W)"
proof -
  obtain W where W: "width_loop ss BYTE = Inr W" "W = BYTE \<or> W \<in> get_multiplier ` set vs"
    "\<forall>v \<in> set vs. enum_val (get_multiplier v) \<le> enum_val W"
    using width_loop_ok [OF assms(1), of BYTE] by blast
  have "W \<in> get_multiplier ` set vs"
  proof (cases "W = BYTE")
    case True
    obtain v where v: "v \<in> set vs" using assms(2) by (cases vs) auto
    then have "enum_val (get_multiplier v) = enum_val BYTE" using W(3) True by auto
    then have "get_multiplier v = BYTE" by (rule enum_val_inj)
    then show ?thesis using v True by force
  next
    case False
    then show ?thesis using W(2) by simp
  qed
  then show ?thesis using W by blast
qed

lemma width_loop_fail:
  assumes "map get_value pre = map Inr vs" "get_value s = Inl e"
  shows "width_loop (pre @ s # post) w = Inl (s, e)"
  using assms
proof (induction pre arbitrary: vs w)
  case Nil
  then show ?case by simp
next
  case (Cons a pre)
  then obtain v vs' where "get_value a = Inr v" "map get_value pre = map Inr vs'"
    by (cases vs) auto
  then show ?case using Cons.IH [of vs'] Cons.prems(2) by (simp add: Let_def)
qed

lemma first_failure:
  assumes "\<exists>s \<in> set ss. \<exists>e. get_value s = Inl e"
  shows "\<exists>pre s post vs e. ss = pre @ s # post \<and> map get_value pre = map Inr vs
            \<and> get_value s = Inl e"
  using assms
proof (induction ss)
  case Nil
  then show ?case by simp
next
  case (Cons a ss)
  show ?case
  proof (cases "get_value a")
    case (Inl e)
    then have "a # ss = [] @ a # ss \<and> map get_value [] = map Inr [] \<and> get_value a = Inl e"
      by simp
    then show ?thesis by blast
  next
    case (Inr v)
    then have "\<exists>s \<in> set ss. \<exists>e. get_value s = Inl e" using Cons.prems by auto
    then obtain pre s post vs e where p: "ss = pre @ s # post" "map get_value pre = map Inr vs"
      "get_value s = Inl e"
      using Cons.IH by blast
    have "a # ss = (a # pre) @ s # post \<and> map get_value (a # pre) = map Inr (v # vs)
          \<and> get_value s = Inl e"
      using p Inr by simp
    then show ?thesis by blast
  qed
qed

lemma print_loop_ok:
  assumes "map get_value ss = map Inr vs"
  shows "print_loop zero_ch ss width show_bin
         = (concat (map (\<lambda>v. print_number zero_ch v width show_bin) vs), [])"
  using assms
proof (induction ss arbitrary: vs)
  case Nil
  then show ?case by simp
next
  case (Cons s ss)
  then obtain v vs' where vs: "vs = v # vs'" and gv: "get_value s = Inr v"
    and rest: "map get_value ss = map Inr vs'"
    by (cases vs) auto
  show ?case using Cons.IH [OF rest] gv by (simp add: vs print_string_def)
qed

lemma main_ok:
  assumes "main_mode argv = (show_bin, first, zero_ch)" "first < length argv"
    and "map get_value (drop first argv) = map Inr vs"
  shows "\<exists>width. main argv
           = (EXIT_SUCCESS, concat (map (\<lambda>v. print_number zero_ch v width show_bin) vs), [])
         \<and> width \<in> get_multiplier ` set vs
         \<and> (\<forall>v \<in> set vs. enum_val (get_multiplier v) \<le> enum_val width)"
proof -
  have "length vs = length (drop first argv)"
    using assms(3) by (metis length_map)
  then have "vs \<noteq> []" using assms(2) by auto
  then obtain W where W: "width_loop (drop first argv) BYTE = Inr W"
    "W \<in> get_multiplier ` set vs" "\<forall>v \<in> set vs. enum_val (get_multiplier v) \<le> enum_val W"
    using width_loop_max [OF assms(3)] by blast
  have "main argv = (EXIT_SUCCESS, concat (map (\<lambda>v. print_number zero_ch v W show_bin) vs), [])"
    using assms(1,2) W(1) print_loop_ok [OF assms(3), of zero_ch W show_bin]
    by (simp add: main_def)
  then show ?thesis using W(2,3) by blast
qed

lemma main_fail:
  assumes "main_mode argv = (show_bin, first, zero_ch)"
    and "drop first argv = pre @ s # post" "map get_value pre = map Inr vs" "get_value s = Inl e"
  shows "main argv = (EXIT_FAILURE, [], error_message s e)"
proof -
  have "first < length argv" using assms(2) by (cases "first < length argv") auto
  then show ?thesis
    using assms(1) width_loop_fail [OF assms(3,4), of post BYTE]
    by (simp add: main_def assms(2))
qed

lemma main_no_values:
  assumes "main_mode argv = (show_bin, first, zero_ch)" "length argv \<le> first"
  shows "main argv = (EXIT_SUCCESS, print_all zero_ch show_bin, [])"
  using assms by (simp add: main_def)

lemma error_message_nonempty: "error_message s e \<noteq> []"
  by (cases e) simp_all

lemma print_number_value_line:
  "print_number zero_ch v width show_bin = value_line zero_ch show_bin width v"
  by (simp add: print_number_def print_size_def value_line_def Let_def)

text \<open>
  Claim C6. When value arguments are present and all parse (to the values \<open>vs\<close>, in
  order), the exit status is success, nothing is written to standard error, and the
  output is one \<open>value_line\<close> per value, all at one display band \<open>width\<close>, which is the
  maximum band across the values: the band of one of them, and no value has a larger one.
  By \<open>value_line\<close>, the hexadecimal and decimal columns have the widths of \<open>width\<close> and
  the human-readable column is computed from the value's own band.
\<close>

theorem C6_shared_width:
  assumes "main_mode argv = (show_bin, first, zero_ch)" "first < length argv"
    and "map get_value (drop first argv) = map Inr vs"
  shows "\<exists>width. width \<in> get_multiplier ` set vs
           \<and> (\<forall>v \<in> set vs. enum_val (get_multiplier v) \<le> enum_val width)
           \<and> main argv
               = (EXIT_SUCCESS, concat (map (value_line zero_ch show_bin width) vs), [])"
proof -
  obtain width where w: "main argv
           = (EXIT_SUCCESS, concat (map (\<lambda>v. print_number zero_ch v width show_bin) vs), [])"
    "width \<in> get_multiplier ` set vs"
    "\<forall>v \<in> set vs. enum_val (get_multiplier v) \<le> enum_val width"
    using main_ok [OF assms] by blast
  have "(\<lambda>v. print_number zero_ch v width show_bin) = value_line zero_ch show_bin width"
    by (rule ext) (rule print_number_value_line)
  then show ?thesis using w by auto
qed

text \<open>
  The theorem at the arguments \<open>1024\<close> and \<open>1048576\<close>: both lines have the Mega
  widths (8 hexadecimal digits, decimal width 10) and show \<open>1.0K\<close> and \<open>1.0M\<close>.
\<close>

theorem C6_shared_width_witness:
  "main_mode [''xvalues'', ''1024'', ''1048576''] = (False, 1, CHR '' '')
   \<and> 1 < length [''xvalues'', ''1024'', ''1048576'']
   \<and> map get_value (drop 1 [''xvalues'', ''1024'', ''1048576'']) = map Inr [1024, 1048576]
   \<and> main [''xvalues'', ''1024'', ''1048576''] =
       (EXIT_SUCCESS,
        ''0x00000400       1024    1.0K'' @ [CHR 0x0A]
        @ ''0x00100000    1048576    1.0M'' @ [CHR 0x0A], [])"
proof -
  let ?argv = "[''xvalues'', ''1024'', ''1048576'']"
  have m: "main_mode ?argv = (False, 1, CHR '' '')" by (simp add: main_mode_def)
  have l: "1 < length ?argv" by simp
  have g: "map get_value (drop 1 ?argv) = map Inr [1024, 1048576]" by code_simp
  from C6_shared_width [OF m l g]
  obtain width where w: "width \<in> get_multiplier ` set [1024, 1048576]"
    "\<forall>v \<in> set [1024, 1048576 :: uint64_t]. enum_val (get_multiplier v) \<le> enum_val width"
    and out: "main ?argv
               = (EXIT_SUCCESS, concat (map (value_line CHR '' '' False width) [1024, 1048576]), [])"
    by (elim exE conjE)
  have k: "get_multiplier 1024 = KILO" and mg: "get_multiplier 1048576 = MEGA"
    by (simp_all add: get_multiplier_def macro_defs)
  have wm: "width = MEGA" using w by (auto simp: k mg)
  have "concat (map (value_line CHR '' '' False MEGA) [1024, 1048576])
        = ''0x00000400       1024    1.0K'' @ [CHR 0x0A]
          @ ''0x00100000    1048576    1.0M'' @ [CHR 0x0A]"
    by code_simp
  then have "main ?argv = (EXIT_SUCCESS,
        ''0x00000400       1024    1.0K'' @ [CHR 0x0A]
        @ ''0x00100000    1048576    1.0M'' @ [CHR 0x0A], [])"
    by (simp only: out wm)
  then show ?thesis using m l g by (simp only: simp_thms)
qed

text \<open>
  Claim C7. If some value argument fails to parse, the exit status is failure, standard
  output is empty and standard error holds the (non-empty) message of a failing argument;
  if every value argument parses, the exit status is success.
\<close>

theorem C7_exit_status:
  assumes "main_mode argv = (show_bin, first, zero_ch)"
  shows "((\<exists>s \<in> set (drop first argv). \<exists>e. get_value s = Inl e) \<longrightarrow>
           (\<exists>s e. s \<in> set (drop first argv) \<and> get_value s = Inl e
                  \<and> main argv = (EXIT_FAILURE, [], error_message s e)
                  \<and> error_message s e \<noteq> []))
       \<and> ((\<forall>s \<in> set (drop first argv). \<exists>v. get_value s = Inr v) \<longrightarrow>
           fst (main argv) = EXIT_SUCCESS)"
proof (intro conjI impI)
  assume "\<exists>s \<in> set (drop first argv). \<exists>e. get_value s = Inl e"
  then obtain pre s post vs e where p: "drop first argv = pre @ s # post"
    "map get_value pre = map Inr vs" "get_value s = Inl e"
    using first_failure by blast
  have "main argv = (EXIT_FAILURE, [], error_message s e)"
    by (rule main_fail [OF assms p])
  moreover have "s \<in> set (drop first argv)" by (simp add: p(1))
  ultimately show "\<exists>s e. s \<in> set (drop first argv) \<and> get_value s = Inl e
                  \<and> main argv = (EXIT_FAILURE, [], error_message s e)
                  \<and> error_message s e \<noteq> []"
    using p(3) error_message_nonempty by blast
next
  assume a: "\<forall>s \<in> set (drop first argv). \<exists>v. get_value s = Inr v"
  show "fst (main argv) = EXIT_SUCCESS"
  proof (cases "first < length argv")
    case True
    have "\<exists>vs. map get_value (drop first argv) = map Inr vs"
      using a
    proof (induction "drop first argv" arbitrary: first)
      case Nil
      then show ?case by simp
    next
      case (Cons x xs)
      have xs: "xs = drop (Suc first) argv"
        using Cons.hyps(2) by (metis drop_Suc tl_drop list.sel(3))
      have "\<forall>s \<in> set (drop (Suc first) argv). \<exists>v. get_value s = Inr v"
        using Cons.prems Cons.hyps(2) xs by (metis list.set_intros(2))
      then obtain vs where vs: "map get_value xs = map Inr vs"
        using Cons.hyps(1) [OF xs] xs by auto
      obtain v where "get_value x = Inr v"
        using Cons.prems Cons.hyps(2) by (metis list.set_intros(1))
      then have "map get_value (x # xs) = map Inr (v # vs)" using vs by simp
      then show ?case using Cons.hyps(2) by metis
    qed
    then obtain vs where "map get_value (drop first argv) = map Inr vs" by blast
    then show ?thesis using main_ok [OF assms True] by auto
  next
    case False
    then show ?thesis using main_no_values [OF assms] by simp
  qed
qed

text \<open>
  The theorem at the arguments \<open>1024 5X 7\<close>, which fail at \<open>5X\<close> with nothing printed,
  and at \<open>1024 7\<close>, which succeed.
\<close>

theorem C7_exit_status_witness:
  "main_mode [''xvalues'', ''1024'', ''5X'', ''7''] = (False, 1, CHR '' '')
   \<and> get_value ''5X'' = Inl (InvalidSuffix 1)
   \<and> main [''xvalues'', ''1024'', ''5X'', ''7'']
       = (EXIT_FAILURE, [], ''Error in value 5X:1'' @ [CHR 0x0A])
   \<and> main_mode [''xvalues'', ''1024'', ''7''] = (False, 1, CHR '' '')
   \<and> get_value ''1024'' = Inr 1024 \<and> get_value ''7'' = Inr 7
   \<and> fst (main [''xvalues'', ''1024'', ''7'']) = EXIT_SUCCESS"
proof -
  let ?bad = "[''xvalues'', ''1024'', ''5X'', ''7'']"
  let ?good = "[''xvalues'', ''1024'', ''7'']"
  have mb: "main_mode ?bad = (False, 1, CHR '' '')" by (simp add: main_mode_def)
  have mg: "main_mode ?good = (False, 1, CHR '' '')" by (simp add: main_mode_def)
  have g1: "get_value ''1024'' = Inr 1024" by code_simp
  have g2: "get_value ''5X'' = Inl (InvalidSuffix 1)" by code_simp
  have g3: "get_value ''7'' = Inr 7" by code_simp
  have "\<exists>s \<in> set (drop 1 ?bad). \<exists>e. get_value s = Inl e" using g2 by simp
  then have ex: "\<exists>s \<in> set (drop 1 ?bad). \<exists>e. get_value s = Inl e" .
  from C7_exit_status [OF mb, THEN conjunct1, rule_format, OF ex]
  obtain s e where se: "s \<in> set (drop 1 ?bad)" "get_value s = Inl e"
    "main ?bad = (EXIT_FAILURE, [], error_message s e)"
    by (elim exE conjE)
  have "s = ''5X''" using se(1,2) g1 g3 by auto
  then have "e = InvalidSuffix 1" using se(2) g2 by simp
  have em: "error_message ''5X'' (InvalidSuffix 1) = ''Error in value 5X:1'' @ [CHR 0x0A]"
    by (simp add: digits.simps digit_char_def)
  have bad: "main ?bad = (EXIT_FAILURE, [], ''Error in value 5X:1'' @ [CHR 0x0A])"
    using se(3) \<open>s = ''5X''\<close> \<open>e = InvalidSuffix 1\<close> em by simp
  have "\<forall>s \<in> set (drop 1 ?good). \<exists>v. get_value s = Inr v" using g1 g3 by simp
  then have al: "\<forall>s \<in> set (drop 1 ?good). \<exists>v. get_value s = Inr v" .
  have good: "fst (main ?good) = EXIT_SUCCESS"
    by (rule C7_exit_status [OF mg, THEN conjunct2, THEN mp, OF al])
  show ?thesis using mb mg g1 g2 g3 bad good by simp
qed

section \<open>The binary column\<close>

lemma and_1_bit0: "(v AND 1 \<noteq> 0) = bit v 0" for v :: uint64_t
  by (simp add: and_one_eq bit_0 mod_2_eq_odd)

lemma print_binary_loop_bits:
  "print_binary_loop len v zero_ch str
   = map (\<lambda>i. if bit v (len - 1 - i) then CHR ''1'' else zero_ch) [0..<len] @ str"
proof (induction len arbitrary: v str)
  case 0
  show ?case by simp
next
  case (Suc len)
  have "map (\<lambda>i. if bit (drop_bit 1 v) (len - 1 - i) then CHR ''1'' else zero_ch) [0..<len]
        = map (\<lambda>i. if bit v (Suc len - 1 - i) then CHR ''1'' else zero_ch) [0..<len]"
  proof (rule map_cong [OF refl])
    fix i assume "i \<in> set [0..<len]"
    then have "i < len" by simp
    then have "Suc (len - 1 - i) = Suc len - 1 - i" by simp
    then show "(if bit (drop_bit 1 v) (len - 1 - i) then CHR ''1'' else zero_ch)
             = (if bit v (Suc len - 1 - i) then CHR ''1'' else zero_ch)"
      by (simp add: bit_drop_bit_eq)
  qed
  then show ?case
    by (simp add: Suc.IH and_1_bit0 del: upt_Suc) (simp add: and_1_bit0)
qed

lemma field_len_code:
  "field_len v = (if v \<le> 0xf then 4
                 else if v \<le> 0xff then 8
                 else if v \<le> 0xffff then 16
                 else if v \<le> 0xffffffff then 32
                 else 64)"
proof -
  have "unat v < 2 ^ 64" using unsigned_less [of v, where 'a = nat] by simp
  then show ?thesis
    by (simp add: field_len_def word_le_nat_alt)
qed

lemma print_binary_field:
  "print_binary zero_ch v
   = ''  '' @ map (\<lambda>i. if bit v (field_len v - 1 - i) then CHR ''1'' else zero_ch) [0..<field_len v]"
  unfolding print_binary_def Let_def field_len_code [symmetric]
  by (simp add: print_binary_loop_bits)

lemma main_argv0: "main (p # args) = main (q # args)"
proof -
  obtain sb f z where m: "main_mode (q # args) = (sb, f, z)"
    by (cases "main_mode (q # args)")
  then have f: "0 < f" by (auto simp: main_mode_def split: if_splits)
  have "main_mode (p # args) = main_mode (q # args)" by (simp add: main_mode_def)
  then have mp: "main_mode (p # args) = (sb, f, z)" using m by simp
  have d: "drop f (p # args) = drop f (q # args)" using f by (cases f) simp_all
  show ?thesis by (simp add: main_def m mp) (simp only: d simp_thms)
qed

lemma main_b5: "main [''xvalues'', ''-b'', ''5''] = (EXIT_SUCCESS, ''0x0005    5    5.0b  .1.1'' @ [CHR 0x0A], [])"
  by code_simp

lemma main_B5: "main [''xvalues'', ''-B'', ''5''] = (EXIT_SUCCESS, ''0x0005    5    5.0b  0101'' @ [CHR 0x0A], [])"
  by code_simp

text \<open>
  Claim C8. The binary column is two spaces and then \<open>field_len v\<close> characters, the
  bits of the value from the most significant of the field to bit 0, a set bit as \<open>1\<close>
  and a clear bit as the fill character. A first argument that starts with \<open>-b\<close> turns
  the column on with fill \<open>.\<close>, one that starts with \<open>-B\<close> with fill \<open>0\<close>: \<open>-b 5\<close>
  prints \<open>.1.1\<close> and \<open>-B 5\<close> prints \<open>0101\<close>.
\<close>

theorem C8_binary_display:
  "print_binary zero_ch v
     = ''  '' @ map (\<lambda>i. if bit v (field_len v - 1 - i) then CHR ''1'' else zero_ch)
                   [0..<field_len v]
   \<and> main_mode (prog # (CHR ''-'' # CHR ''b'' # rest) # args) = (True, 2, CHR ''.'')
   \<and> main_mode (prog # (CHR ''-'' # CHR ''B'' # rest) # args) = (True, 2, CHR ''0'')
   \<and> main [prog, ''-b'', ''5'']
       = (EXIT_SUCCESS, ''0x0005    5    5.0b'' @ ''  .1.1'' @ [CHR 0x0A], [])
   \<and> main [prog, ''-B'', ''5'']
       = (EXIT_SUCCESS, ''0x0005    5    5.0b'' @ ''  0101'' @ [CHR 0x0A], [])"
proof -
  have "main [prog, ''-b'', ''5''] = main [''xvalues'', ''-b'', ''5'']" by (rule main_argv0)
  moreover
  have "main [prog, ''-B'', ''5''] = main [''xvalues'', ''-B'', ''5'']" by (rule main_argv0)
  ultimately show ?thesis
    by (simp add: print_binary_field main_b5 main_B5 main_mode_def)
qed

section \<open>The demonstration table\<close>

lemma digits_small: "n < b \<Longrightarrow> digits b n = [digit_char n]"
  by (subst digits.simps) simp

lemma digits_large: "2 \<le> b \<Longrightarrow> b \<le> n \<Longrightarrow> digits b n = digits b (n div b) @ [digit_char (n mod b)]"
  by (subst digits.simps) simp

lemma drop_count_small: "n < 2 ^ 53 \<Longrightarrow> drop_count n = 0"
  by (subst drop_count.simps) simp

lemma drop_count_large: "2 ^ 53 \<le> n \<Longrightarrow> drop_count n = Suc (drop_count (n div 2))"
  by (subst drop_count.simps) simp

lemma replicate_numeral: "replicate (numeral k) x = x # replicate (pred_numeral k) x"
  by (simp add: numeral_eq_Suc)

lemmas print_eval = replicate_numeral
  print_number_def format_hex_def format_decimal_def pad_left_def digits_small digits_large
  digit_char_def print_size_def get_multiplier_def KB_def MB_def GB_def TB_def PB_def EB_def
  printf_6_1f_def to_double_def drop_count_small drop_count_large round_half_even_def

lemma demo_text:
  "print_all CHR '' '' False =
     concat (map (\<lambda>l. l @ [CHR 0x0A])
       [''0x0000000000000008                    8    8.0b'',
        ''0x0000000000000010                   16   16.0b'',
        ''0x0000000000000040                   64   64.0b'',
        ''0x0000000000000080                  128  128.0b'',
        ''0x0000000000000100                  256  256.0b'',
        ''0x0000000000000200                  512  512.0b'',
        ''0x0000000000000400                 1024    1.0K'',
        ''0x0000000000001000                 4096    4.0K'',
        ''0x0000000000004000                16384   16.0K'',
        ''0x0000000000010000                65536   64.0K'',
        ''0x0000000000100000              1048576    1.0M'',
        ''0x0000000001000000             16777216   16.0M'',
        ''0x0000000004000000             67108864   64.0M'',
        ''0x0000000010000000            268435456  256.0M'',
        ''0x0000000020000000            536870912  512.0M'',
        ''0x0000000040000000           1073741824    1.0G'',
        ''0x0000000100000000           4294967296    4.0G'',
        ''0x0000010000000000        1099511627776    1.0T'',
        ''0x0004000000000000     1125899906842624    1.0P'',
        ''0x1000000000000000  1152921504606846976    1.0E''])"
  by (simp add: print_all_def values_arr_def print_eval Let_def)


text \<open>
  Claim C9. With no arguments, the exit status is success and the output is exactly
  these 20 lines, without a binary column: the lines of the 20 values in order, at the
  Exa display band (16 hexadecimal digits, decimal width 20).
\<close>

theorem C9_demo_table:
  "main [prog] =
     (EXIT_SUCCESS,
      concat (map (\<lambda>l. l @ [CHR 0x0A])
       [''0x0000000000000008                    8    8.0b'',
        ''0x0000000000000010                   16   16.0b'',
        ''0x0000000000000040                   64   64.0b'',
        ''0x0000000000000080                  128  128.0b'',
        ''0x0000000000000100                  256  256.0b'',
        ''0x0000000000000200                  512  512.0b'',
        ''0x0000000000000400                 1024    1.0K'',
        ''0x0000000000001000                 4096    4.0K'',
        ''0x0000000000004000                16384   16.0K'',
        ''0x0000000000010000                65536   64.0K'',
        ''0x0000000000100000              1048576    1.0M'',
        ''0x0000000001000000             16777216   16.0M'',
        ''0x0000000004000000             67108864   64.0M'',
        ''0x0000000010000000            268435456  256.0M'',
        ''0x0000000020000000            536870912  512.0M'',
        ''0x0000000040000000           1073741824    1.0G'',
        ''0x0000000100000000           4294967296    4.0G'',
        ''0x0000010000000000        1099511627776    1.0T'',
        ''0x0004000000000000     1125899906842624    1.0P'',
        ''0x1000000000000000  1152921504606846976    1.0E'']),
      [])
   \<and> main [prog] =
     (EXIT_SUCCESS,
      concat (map (value_line CHR '' '' False EXI)
       [8, 16, 64, 128, 256, 512, 1024, 4096, 16384, 65536, 1048576, 16777216, 67108864,
        268435456, 536870912, 1073741824, 4294967296, 1099511627776, 1125899906842624,
        1152921504606846976]),
      [])
   \<and> width_hex (data EXI) = 16 \<and> width_dec (data EXI) = 20"
proof -
  have m: "main [prog] = (EXIT_SUCCESS, print_all CHR '' '' False, [])"
    by (simp add: main_def main_mode_def)
  have v: "print_all CHR '' '' False =
      concat (map (value_line CHR '' '' False EXI)
       [8, 16, 64, 128, 256, 512, 1024, 4096, 16384, 65536, 1048576, 16777216, 67108864,
        268435456, 536870912, 1073741824, 4294967296, 1099511627776, 1125899906842624,
        1152921504606846976])"
    by (simp add: print_all_def values_arr_def macro_defs print_number_value_line)
  show ?thesis
    by (simp only: m demo_text [symmetric] v [symmetric] simp_thms data.simps band_info.simps)
qed

end
